theory Spec2Isabelle
  imports Complex_Main "HOL-Library.Word" "HOL-Library.Multiset"
begin

section \<open>Bounded history buffer (src/core/ring_buffer.h)\<close>

text \<open>
  \<^verbatim>\<open>size_t\<close> is a 64-bit unsigned integer: sums and differences wrap around.
\<close>

type_synonym size_t = "64 word"

datatype error = OutOfRange | EmptyBuffer

text \<open>
  \<^verbatim>\<open>template<typename T, size_t N> class RingBuffer\<close>: the fields of the class.
  The template parameter \<open>N\<close> is the first argument of every operation. Every member
  function holds \<^verbatim>\<open>m_mutex\<close> for its whole body, so each one is a single step on the
  state; the mutex itself is left out.
\<close>

record 'a RingBuffer =
  m_buffer :: "'a list"
  m_head :: size_t
  m_size :: size_t

text \<open>
  The constructor: head and size are 0 and \<^verbatim>\<open>m_buffer.resize(N)\<close> fills the storage
  with \<open>N\<close> value-initialised elements, \<open>T0\<close> here.
\<close>

definition RingBuffer_new :: "size_t \<Rightarrow> 'a \<Rightarrow> 'a RingBuffer" where
  "RingBuffer_new N T0 = \<lparr>m_buffer = replicate (unat N) T0, m_head = 0, m_size = 0\<rparr>"

definition push :: "size_t \<Rightarrow> 'a \<Rightarrow> 'a RingBuffer \<Rightarrow> 'a RingBuffer" where
  "push N v rb =
     \<lparr>m_buffer = (m_buffer rb)[unat (m_head rb) := v],
      m_head = (m_head rb + 1) mod N,
      m_size = (if m_size rb < N then m_size rb + 1 else m_size rb)\<rparr>"

definition get :: "size_t \<Rightarrow> 'a RingBuffer \<Rightarrow> size_t \<Rightarrow> error + 'a" where
  "get N rb index =
     (if index \<ge> m_size rb then Inl OutOfRange
      else let actualIndex = (m_head rb + N - m_size rb + index) mod N
           in Inr (m_buffer rb ! unat actualIndex))"

definition latest :: "size_t \<Rightarrow> 'a RingBuffer \<Rightarrow> error + 'a" where
  "latest N rb =
     (if m_size rb = 0 then Inl EmptyBuffer
      else let lastIndex = (m_head rb + N - 1) mod N
           in Inr (m_buffer rb ! unat lastIndex))"

text \<open>
  \<^verbatim>\<open>getAll\<close>: the loop \<^verbatim>\<open>for (size_t i = 0; i < m_size; ++i)\<close> with its counter \<open>i\<close>
  and the vector \<open>result\<close> built so far. The counter stays below \<^verbatim>\<open>m_size\<close>, so
  \<open>i + 1\<close> does not wrap and the loop ends.
\<close>

function getAll_loop :: "size_t \<Rightarrow> 'a RingBuffer \<Rightarrow> size_t \<Rightarrow> 'a list \<Rightarrow> 'a list" where
  "getAll_loop N rb i result =
     (if i < m_size rb then
        let actualIndex = (m_head rb + N - m_size rb + i) mod N
        in getAll_loop N rb (i + 1) (result @ [m_buffer rb ! unat actualIndex])
      else result)"
  by pat_completeness auto
termination
proof (relation "measure (\<lambda>(N, rb, i, result). unat (m_size rb) - unat i)")
  show "wf (measure (\<lambda>(N, rb, i, result). unat (m_size rb) - unat i))"
    by simp
next
  fix N :: size_t and rb :: "'a RingBuffer" and i :: size_t and result :: "'a list" and x :: size_t
  assume "i < m_size rb"
  then have below: "unat i < unat (m_size rb)"
    by (simp add: word_less_nat_alt)
  moreover have "unat (m_size rb) < 2 ^ 64"
    using unsigned_less [of "m_size rb"] by simp
  ultimately have "unat i + unat (1 :: size_t) < 2 ^ LENGTH(64)"
    by simp
  then have "unat (i + 1) = unat i + 1"
    by (simp add: unat_add_lem [THEN iffD1])
  then show "((N, rb, i + 1, result @ [m_buffer rb ! unat x]), N, rb, i, result) \<in>
      measure (\<lambda>(N, rb, i, result). unat (m_size rb) - unat i)"
    using below by simp
qed

declare getAll_loop.simps [simp del]

definition getAll :: "size_t \<Rightarrow> 'a RingBuffer \<Rightarrow> 'a list" where
  "getAll N rb = getAll_loop N rb 0 []"

definition size_rb :: "'a RingBuffer \<Rightarrow> size_t" where
  "size_rb rb = m_size rb"

definition capacity :: "size_t \<Rightarrow> size_t" where
  "capacity N = N"

definition isFull :: "size_t \<Rightarrow> 'a RingBuffer \<Rightarrow> bool" where
  "isFull N rb \<longleftrightarrow> m_size rb = N"

definition isEmpty :: "'a RingBuffer \<Rightarrow> bool" where
  "isEmpty rb \<longleftrightarrow> m_size rb = 0"

definition clear :: "'a RingBuffer \<Rightarrow> 'a RingBuffer" where
  "clear rb = rb\<lparr>m_head := 0, m_size := 0\<rparr>"


section \<open>Rate calculator (fps_calculator.h, fps_calculator.cpp)\<close>

text \<open>
  \<^verbatim>\<open>double\<close> is modelled as \<open>real\<close>: the arithmetic is exact, without rounding,
  infinities or NaN. The timer frequency \<^verbatim>\<open>m_frequency\<close> is read from the operating
  system at construction and used by no member function; it is left out.
\<close>

record FpsCalculator =
  m_samples :: "real RingBuffer"
  m_currentFPS :: real
  m_averageFPS :: real
  m_historySize :: size_t

definition MAX_HISTORY :: size_t where
  "MAX_HISTORY = 600"

definition MAX_FPS :: real where
  "MAX_FPS = 1000"

definition FpsCalculator_new :: "size_t \<Rightarrow> FpsCalculator" where
  "FpsCalculator_new historySize =
     \<lparr>m_samples = RingBuffer_new MAX_HISTORY 0,
      m_currentFPS = 0,
      m_averageFPS = 0,
      m_historySize = min historySize MAX_HISTORY\<rparr>"

text \<open>\<^verbatim>\<open>std::accumulate(samples.begin(), samples.end(), 0.0)\<close> adds from the left.\<close>

definition accumulate :: "real list \<Rightarrow> real \<Rightarrow> real" where
  "accumulate samples init = foldl (+) init samples"

definition calculateAverage :: "FpsCalculator \<Rightarrow> real" where
  "calculateAverage c =
     (let samples = getAll MAX_HISTORY (m_samples c)
      in if samples = [] then 0
         else let sum = accumulate samples 0
              in sum / real (length samples))"

definition FpsCalculator_update :: "FpsCalculator \<Rightarrow> real \<Rightarrow> FpsCalculator" where
  "FpsCalculator_update c deltaTime =
     (if deltaTime \<le> 0 then c
      else let c1 = c\<lparr>m_currentFPS := 1 / deltaTime\<rparr>;
               c2 = c1\<lparr>m_currentFPS := max 0 (min (m_currentFPS c1) MAX_FPS)\<rparr>;
               c3 = c2\<lparr>m_samples := push MAX_HISTORY (m_currentFPS c2) (m_samples c2)\<rparr>
           in c3\<lparr>m_averageFPS := calculateAverage c3\<rparr>)"

definition getCurrentFPS :: "FpsCalculator \<Rightarrow> real" where
  "getCurrentFPS c = m_currentFPS c"

definition getAverageFPS :: "FpsCalculator \<Rightarrow> real" where
  "getAverageFPS c = m_averageFPS c"

definition getSamples :: "FpsCalculator \<Rightarrow> real list" where
  "getSamples c = getAll MAX_HISTORY (m_samples c)"

definition getSampleCount :: "FpsCalculator \<Rightarrow> size_t" where
  "getSampleCount c = size_rb (m_samples c)"

definition FpsCalculator_reset :: "FpsCalculator \<Rightarrow> FpsCalculator" where
  "FpsCalculator_reset c = c\<lparr>m_samples := clear (m_samples c), m_currentFPS := 0, m_averageFPS := 0\<rparr>"

section \<open>Statistics tracker (stats_tracker.h, stats_tracker.cpp)\<close>

text \<open>The fields \<^verbatim>\<open>min\<close> and \<^verbatim>\<open>max\<close> of \<^verbatim>\<open>Stats\<close> are \<open>min_fps\<close> and \<open>max_fps\<close> here.\<close>

record Stats =
  average :: real
  min_fps :: real
  max_fps :: real
  percentile01 :: real
  percentile1 :: real

text \<open>
  \<^verbatim>\<open>calculatePercentile\<close>. The casts \<^verbatim>\<open>static_cast<size_t>(std::floor(index))\<close> and
  \<^verbatim>\<open>static_cast<size_t>(std::ceil(index))\<close> are defined for an \<open>index\<close> in the range of
  \<^verbatim>\<open>size_t\<close> only, as it is for a \<open>percentile\<close> in \<open>[0, 1]\<close>; both callers pass such a
  \<open>percentile\<close>, and the properties below are stated for those.
\<close>

definition calculatePercentile :: "real list \<Rightarrow> real \<Rightarrow> real" where
  "calculatePercentile sortedSamples percentile =
     (if sortedSamples = [] then 0
      else if length sortedSamples = 1 then sortedSamples ! 0
      else let index = percentile * real (length sortedSamples - 1);
               lowerIndex0 = nat \<lfloor>index\<rfloor>;
               upperIndex0 = nat \<lceil>index\<rceil>;
               lowerIndex = min lowerIndex0 (length sortedSamples - 1);
               upperIndex = min upperIndex0 (length sortedSamples - 1)
           in if lowerIndex = upperIndex then sortedSamples ! lowerIndex
              else let weight = index - real lowerIndex
                   in sortedSamples ! lowerIndex * (1 - weight) + sortedSamples ! upperIndex * weight)"

text \<open>
  \<^verbatim>\<open>calculateStats\<close> assigns \<^verbatim>\<open>m_stats\<close>, the only state it touches; the model returns
  the new value. \<^verbatim>\<open>std::sort\<close> on doubles is \<open>sort\<close>.
\<close>

definition calculateStats :: "real list \<Rightarrow> Stats" where
  "calculateStats samples =
     (if samples = [] then \<lparr>average = 0, min_fps = 0, max_fps = 0, percentile01 = 0, percentile1 = 0\<rparr>
      else let sorted = sort samples
           in \<lparr>average = accumulate sorted 0 / real (length sorted),
               min_fps = hd sorted,
               max_fps = last sorted,
               percentile01 = calculatePercentile sorted (1 / 1000),
               percentile1 = calculatePercentile sorted (1 / 100)\<rparr>)"

section \<open>Drop detector (drop_detector.h, drop_detector.cpp)\<close>

text \<open>
  A \<^verbatim>\<open>steady_clock::time_point\<close> is a number of seconds, and each function that reads
  the clock takes the reading \<open>now\<close> as an argument.
\<close>

type_synonym time_point = real

record Drop =
  timestamp :: time_point
  averageFPS :: real
  currentFPS :: real
  magnitude :: real

text \<open>
  \<^verbatim>\<open>m_callback\<close> is a \<^verbatim>\<open>std::function\<close>; the model keeps whether it holds a callable,
  and \<open>DropDetector_update\<close> returns, beside the new state, the arguments of the callback
  invocations it made, in order.
\<close>

record DropDetector =
  m_thresholdPercent :: real
  m_drops :: "Drop list"
  m_callback :: bool
  m_lastDrop :: time_point



definition DropDetector_new :: "time_point \<Rightarrow> real \<Rightarrow> DropDetector" where
  "DropDetector_new now thresholdPercent =
     \<lparr>m_thresholdPercent = thresholdPercent, m_drops = [], m_callback = False, m_lastDrop = now\<rparr>"

text \<open>
  The parameters \<^verbatim>\<open>currentFPS\<close> and \<^verbatim>\<open>averageFPS\<close> of \<^verbatim>\<open>checkForDrop\<close> and
  \<^verbatim>\<open>update\<close> are \<open>cur\<close> and \<open>avg\<close> here, since the fields of \<open>Drop\<close> have those
  names.
\<close>

definition checkForDrop :: "DropDetector \<Rightarrow> real \<Rightarrow> real \<Rightarrow> bool" where
  "checkForDrop d cur avg =
     (if avg < 10 then False
      else let dropPercent = ((avg - cur) / avg) * 100
           in dropPercent \<ge> m_thresholdPercent d)"


definition getDrops :: "DropDetector \<Rightarrow> Drop list" where
  "getDrops d = m_drops d"

definition getRecentDrops :: "time_point \<Rightarrow> DropDetector \<Rightarrow> real \<Rightarrow> Drop list" where
  "getRecentDrops now d seconds = filter (\<lambda>drop. now - timestamp drop \<le> seconds) (m_drops d)"

definition setThreshold :: "DropDetector \<Rightarrow> real \<Rightarrow> DropDetector" where
  "setThreshold d thresholdPercent =
     d\<lparr>m_thresholdPercent := max 5 (min thresholdPercent 50)\<rparr>"

definition getThreshold :: "DropDetector \<Rightarrow> real" where
  "getThreshold d = m_thresholdPercent d"



section \<open>The drop condition in binary64 arithmetic\<close>

text \<open>
  The boolean that \<^verbatim>\<open>checkForDrop\<close> returns depends on how its subtraction, its
  division and its multiplication round. \<open>checkForDrop\<close> above computes with exact reals,
  and the properties of \<^verbatim>\<open>update\<close> are stated with it. \<open>checkForDrop_binary64\<close> below
  computes as the compiled code does: in IEEE 754 binary64, every operation rounded to
  nearest with ties to even, on values that include the negative zero, the infinities and
  NaN.

  A \<^verbatim>\<open>double\<close>: a finite value other than the negative zero is \<open>Finite x\<close> with \<open>x\<close>
  the number it stands for (\<open>Finite 0\<close> is the positive zero).
\<close>

datatype double = Finite real | NegZero | PosInf | NegInf | NaN

text \<open>The number of binary digits of a positive integer, 0 for the others.\<close>

function bit_length :: "int \<Rightarrow> nat" where
  "bit_length n = (if n \<le> 0 then 0 else Suc (bit_length (n div 2)))"
  by pat_completeness auto
termination
  by (relation "measure nat") auto

declare bit_length.simps [simp del]

text \<open>The integer nearest to \<open>y\<close>, the even one of the two when \<open>y\<close> lies halfway.\<close>

definition round_half_even :: "real \<Rightarrow> int" where
  "round_half_even y =
     (let f = \<lfloor>y\<rfloor>; r = y - real_of_int f
      in if r < 1 / 2 then f else if r > 1 / 2 then f + 1 else if even f then f else f + 1)"

text \<open>
  Rounding of a magnitude \<open>x \<ge> 0\<close>. In units of the least subnormal \<open>2\<^sup>-\<^sup>1\<^sup>0\<^sup>7\<^sup>4\<close> the
  magnitude is \<open>z\<close>; a significand has 53 binary digits, so the \<open>k\<close> digits of \<open>z\<close> beyond
  53 are rounded away (none below \<open>2\<^sup>5\<^sup>3\<close> units, the subnormals and the first binade of the
  normal numbers), and a rounded magnitude of \<open>2\<^sup>1\<^sup>0\<^sup>2\<^sup>4\<close> or more overflows to infinity.
\<close>

definition round_magnitude :: "real \<Rightarrow> double" where
  "round_magnitude x =
     (let z = x * 2 ^ 1074;
          k = bit_length \<lfloor>z\<rfloor> - 53;
          m = round_half_even (z / 2 ^ k);
          y = real_of_int m * 2 ^ k / 2 ^ 1074
      in if y \<ge> 2 ^ 1024 then PosInf else Finite y)"

fun dneg :: "double \<Rightarrow> double" where
  "dneg (Finite x) = (if x = 0 then NegZero else Finite (- x))"
| "dneg NegZero = Finite 0"
| "dneg PosInf = NegInf"
| "dneg NegInf = PosInf"
| "dneg NaN = NaN"

definition with_sign :: "bool \<Rightarrow> double \<Rightarrow> double" where
  "with_sign negative d = (if negative then dneg d else d)"

text \<open>The rounding of an exact result \<open>x \<noteq> 0\<close>; a result that underflows keeps its sign.\<close>

definition fl :: "real \<Rightarrow> double" where
  "fl x = with_sign (x < 0) (round_magnitude \<bar>x\<bar>)"

fun sign_bit :: "double \<Rightarrow> bool" where
  "sign_bit (Finite x) \<longleftrightarrow> x < 0"
| "sign_bit NegZero \<longleftrightarrow> True"
| "sign_bit PosInf \<longleftrightarrow> False"
| "sign_bit NegInf \<longleftrightarrow> True"
| "sign_bit NaN \<longleftrightarrow> False"

text \<open>The number a finite value stands for.\<close>

fun val :: "double \<Rightarrow> real" where
  "val (Finite x) = x"
| "val d = 0"

definition is_inf :: "double \<Rightarrow> bool" where
  "is_inf d \<longleftrightarrow> d = PosInf \<or> d = NegInf"

definition is_zero :: "double \<Rightarrow> bool" where
  "is_zero d \<longleftrightarrow> d = Finite 0 \<or> d = NegZero"

text \<open>
  \<^verbatim>\<open>x - y\<close>. An exact difference of 0 is the positive zero, but for \<open>(-0) - (+0)\<close>.
\<close>

definition dsub :: "double \<Rightarrow> double \<Rightarrow> double" where
  "dsub x y =
     (if x = NaN \<or> y = NaN then NaN
      else if is_inf x then (if y = x then NaN else x)
      else if is_inf y then dneg y
      else if val x - val y = 0 then (if x = NegZero \<and> y = Finite 0 then NegZero else Finite 0)
      else fl (val x - val y))"

text \<open>\<^verbatim>\<open>x * y\<close> and \<^verbatim>\<open>x / y\<close>: the sign of the result is the exclusive or of the signs.\<close>

definition dmul :: "double \<Rightarrow> double \<Rightarrow> double" where
  "dmul x y =
     (if x = NaN \<or> y = NaN then NaN
      else if is_inf x \<and> is_zero y \<or> is_zero x \<and> is_inf y then NaN
      else if is_inf x \<or> is_inf y then with_sign (sign_bit x \<noteq> sign_bit y) PosInf
      else with_sign (sign_bit x \<noteq> sign_bit y) (round_magnitude (\<bar>val x\<bar> * \<bar>val y\<bar>)))"

definition ddiv :: "double \<Rightarrow> double \<Rightarrow> double" where
  "ddiv x y =
     (if x = NaN \<or> y = NaN then NaN
      else if is_inf x \<and> is_inf y \<or> is_zero x \<and> is_zero y then NaN
      else if is_inf x \<or> is_zero y then with_sign (sign_bit x \<noteq> sign_bit y) PosInf
      else if is_inf y then with_sign (sign_bit x \<noteq> sign_bit y) (Finite 0)
      else with_sign (sign_bit x \<noteq> sign_bit y) (round_magnitude (\<bar>val x\<bar> / \<bar>val y\<bar>)))"

text \<open>\<^verbatim>\<open>x < y\<close> and \<^verbatim>\<open>x >= y\<close>: false when an operand is NaN; the two zeros are equal.\<close>

definition dless :: "double \<Rightarrow> double \<Rightarrow> bool" where
  "dless x y \<longleftrightarrow>
     x \<noteq> NaN \<and> y \<noteq> NaN \<and>
     (if x = NegInf then y \<noteq> NegInf
      else if y = PosInf then x \<noteq> PosInf
      else if x = PosInf \<or> y = NegInf then False
      else val x < val y)"

definition dge :: "double \<Rightarrow> double \<Rightarrow> bool" where
  "dge x y \<longleftrightarrow> x \<noteq> NaN \<and> y \<noteq> NaN \<and> \<not> dless x y"

text \<open>
  \<^verbatim>\<open>DropDetector::checkForDrop\<close> on doubles. Of the detector it reads
  \<^verbatim>\<open>m_thresholdPercent\<close> only, the first argument here; \<^verbatim>\<open>10.0\<close> and \<^verbatim>\<open>100.0\<close> are
  doubles.
\<close>

definition checkForDrop_binary64 :: "double \<Rightarrow> double \<Rightarrow> double \<Rightarrow> bool" where
  "checkForDrop_binary64 thresholdPercent cur avg =
     (if dless avg (Finite 10) then False
      else let dropPercent = dmul (ddiv (dsub avg cur) avg) (Finite 100)
           in dge dropPercent thresholdPercent)"

section \<open>Reference notions used to state the properties\<close>

subsection \<open>History buffer\<close>

text \<open>
  A buffer can exist for a capacity \<open>N\<close> when \<^verbatim>\<open>static_assert(N > 0)\<close> passes and the
  constructor's \<^verbatim>\<open>m_buffer.resize(N)\<close> succeeds; a \<^verbatim>\<open>std::vector\<close> holds fewer than
  \<open>2 ^ 63\<close> elements.
\<close>

definition valid_capacity :: "size_t \<Rightarrow> bool" where
  "valid_capacity N \<longleftrightarrow> 0 < N \<and> unat N < 2 ^ 63"

text \<open>A sequence of pushes, first element first.\<close>

definition pushes :: "size_t \<Rightarrow> 'a list \<Rightarrow> 'a RingBuffer \<Rightarrow> 'a RingBuffer" where
  "pushes N vs rb = foldl (\<lambda>rb v. push N v rb) rb vs"

text \<open>The calls that change a buffer, and a sequence of them, first call first.\<close>

datatype 'a buffer_op = Push 'a | Clear

fun apply_op :: "size_t \<Rightarrow> 'a RingBuffer \<Rightarrow> 'a buffer_op \<Rightarrow> 'a RingBuffer" where
  "apply_op N rb (Push v) = push N v rb"
| "apply_op N rb Clear = clear rb"

definition run_ops :: "size_t \<Rightarrow> 'a RingBuffer \<Rightarrow> 'a buffer_op list \<Rightarrow> 'a RingBuffer" where
  "run_ops N rb ops = foldl (apply_op N) rb ops"

text \<open>The values pushed since the last \<open>Clear\<close>, in the order of the pushes.\<close>

fun pushed_step :: "'a list \<Rightarrow> 'a buffer_op \<Rightarrow> 'a list" where
  "pushed_step ps (Push v) = ps @ [v]"
| "pushed_step ps Clear = []"

definition pushed :: "'a buffer_op list \<Rightarrow> 'a list" where
  "pushed ops = foldl pushed_step [] ops"

text \<open>The \<open>n\<close> most recent of the pushed values \<open>ps\<close>, oldest first.\<close>

definition retained :: "nat \<Rightarrow> 'a list \<Rightarrow> 'a list" where
  "retained n ps = drop (length ps - n) ps"

text \<open>
  One push on the chronological contents of a buffer of capacity \<open>n\<close>: the value is
  appended, and the oldest value leaves when the buffer was full.
\<close>

definition keep :: "nat \<Rightarrow> 'a list \<Rightarrow> 'a \<Rightarrow> 'a list" where
  "keep n xs v = (if length xs < n then xs @ [v] else tl xs @ [v])"

text \<open>One call on the chronological contents.\<close>

fun contents_step :: "nat \<Rightarrow> 'a list \<Rightarrow> 'a buffer_op \<Rightarrow> 'a list" where
  "contents_step n xs (Push v) = keep n xs v"
| "contents_step n xs Clear = []"

text \<open>
  \<open>holds N rb xs\<close>: the buffer \<open>rb\<close> stores the chronological contents \<open>xs\<close>, the
  element at position \<open>i\<close> in the slot that \<^verbatim>\<open>get\<close> computes for \<open>i\<close>.
\<close>

definition holds :: "size_t \<Rightarrow> 'a RingBuffer \<Rightarrow> 'a list \<Rightarrow> bool" where
  "holds N rb xs \<longleftrightarrow>
     length (m_buffer rb) = unat N \<and> unat (m_head rb) < unat N \<and>
     unat (m_size rb) = length xs \<and> length xs \<le> unat N \<and>
     (\<forall>i<length xs.
        m_buffer rb ! ((unat (m_head rb) + unat N - length xs + i) mod unat N) = xs ! i)"

subsection \<open>Rate calculator\<close>

text \<open>A sequence of \<^verbatim>\<open>update\<close> calls, first call first.\<close>

definition feed :: "FpsCalculator \<Rightarrow> real list \<Rightarrow> FpsCalculator" where
  "feed c deltaTimes = foldl FpsCalculator_update c deltaTimes"

text \<open>The arithmetic mean of a list of samples, 0 for the empty list.\<close>

definition mean :: "real list \<Rightarrow> real" where
  "mean xs = (if xs = [] then 0 else sum_list xs / real (length xs))"

text \<open>The sample that \<^verbatim>\<open>update\<close> pushes for a positive \<open>deltaTime\<close>: the clamped rate.\<close>

definition rate :: "real \<Rightarrow> real" where
  "rate deltaTime = max 0 (min (1 / deltaTime) MAX_FPS)"

text \<open>
  The calls that change a calculator, \<^verbatim>\<open>update(deltaTime)\<close> and \<^verbatim>\<open>reset()\<close>, and a
  sequence of them, first call first.
\<close>

datatype calc_op = Tick real | Reset

fun calc_step :: "FpsCalculator \<Rightarrow> calc_op \<Rightarrow> FpsCalculator" where
  "calc_step c (Tick deltaTime) = FpsCalculator_update c deltaTime"
| "calc_step c Reset = FpsCalculator_reset c"

definition calc_run :: "FpsCalculator \<Rightarrow> calc_op list \<Rightarrow> FpsCalculator" where
  "calc_run c ops = foldl calc_step c ops"

text \<open>
  The samples pushed since the last \<open>Reset\<close>, in the order of the pushes: one for each
  \<open>Tick\<close> with a positive \<open>deltaTime\<close>.
\<close>

fun samples_step :: "real list \<Rightarrow> calc_op \<Rightarrow> real list" where
  "samples_step ps (Tick deltaTime) = (if 0 < deltaTime then ps @ [rate deltaTime] else ps)"
| "samples_step ps Reset = []"

definition pushed_samples :: "calc_op list \<Rightarrow> real list" where
  "pushed_samples ops = foldl samples_step [] ops"

subsection \<open>Statistics tracker\<close>

text \<open>
  The percentile of the specification: for the real index \<open>idx = p * (n - 1)\<close>, \<open>lo\<close> is
  its floor and \<open>hi\<close> its ceiling, both clamped to \<open>[0, n - 1]\<close>, and the result is the
  linear interpolation between \<open>sorted[lo]\<close> and \<open>sorted[hi]\<close> weighted by \<open>idx - lo\<close>;
  0 for \<open>n = 0\<close> and the single value for \<open>n = 1\<close>.
\<close>

definition clamp_index :: "nat \<Rightarrow> int \<Rightarrow> nat" where
  "clamp_index n j = nat (max 0 (min j (int n - 1)))"

definition lerp :: "real \<Rightarrow> real \<Rightarrow> real \<Rightarrow> real" where
  "lerp a b w = a + w * (b - a)"

definition percentile_spec :: "real list \<Rightarrow> real \<Rightarrow> real" where
  "percentile_spec sortedSamples p =
     (let n = length sortedSamples
      in if n = 0 then 0
         else if n = 1 then sortedSamples ! 0
         else let idx = p * real (n - 1);
                  lo = clamp_index n \<lfloor>idx\<rfloor>;
                  hi = clamp_index n \<lceil>idx\<rceil>
              in lerp (sortedSamples ! lo) (sortedSamples ! hi) (idx - real lo))"

subsection \<open>Drop detector\<close>








section \<open>The buffer stores the last pushed values\<close>

lemma unat_lt64: "unat (w :: 64 word) < 2 ^ 64"
  using unsigned_less [of w] by simp

lemma unat_index:
  fixes h N s i :: "64 word"
  assumes hN: "unat h < unat N" and sN: "unat s \<le> unat N" and "unat i < unat s" and N: "unat N < 2^63"
  shows "unat ((h + N - s + i) mod N) = (unat h + unat N - unat s + unat i) mod unat N"
proof -
  have 1: "unat (h + N) = unat h + unat N"
    using hN N by (subst unat_add_lem [THEN iffD1]) simp_all
  have "s \<le> h + N"
    using sN 1 by (simp add: word_le_nat_alt)
  then have 2: "unat (h + N - s) = unat h + unat N - unat s"
    using 1 by (simp add: unat_sub)
  have 3: "unat (h + N - s + i) = unat h + unat N - unat s + unat i"
    using assms 2 by (subst unat_add_lem [THEN iffD1]) simp_all
  show ?thesis
    by (simp add: unat_mod 3)
qed

lemma unat_next_head:
  fixes h N :: "64 word"
  assumes "unat h < unat N"
  shows "unat ((h + 1) mod N) = (unat h + 1) mod unat N"
proof -
  have "unat h + 1 < 2 ^ 64"
    using assms unat_lt64 [of N] by simp
  then have "unat (h + 1) = unat h + 1"
    by (subst unat_add_lem [THEN iffD1]) simp_all
  then show ?thesis
    by (simp add: unat_mod)
qed

lemma unat_last_index:
  fixes h N :: "64 word"
  assumes "unat h < unat N" "unat N < 2^63"
  shows "unat ((h + N - 1) mod N) = (unat h + unat N - 1) mod unat N"
proof -
  have 1: "unat (h + N) = unat h + unat N"
    using assms by (subst unat_add_lem [THEN iffD1]) simp_all
  have "1 \<le> h + N"
    using assms 1 by (simp add: word_le_nat_alt)
  then have 2: "unat (h + N - 1) = unat h + unat N - 1"
    using 1 by (simp add: unat_sub)
  show ?thesis
    by (simp add: unat_mod 2)
qed

lemma unat_size_inc:
  fixes s N :: "64 word"
  assumes "unat s < unat N"
  shows "unat (s + 1) = unat s + 1"
proof -
  have "unat s + 1 < 2 ^ 64"
    using assms unat_lt64 [of N] by simp
  then show ?thesis
    by (subst unat_add_lem [THEN iffD1]) simp_all
qed

lemma mod_shift_neq:
  fixes h k n :: nat
  assumes "h < n" "0 < k" "k < n"
  shows "(h + k) mod n \<noteq> h"
proof (cases "h + k < n")
  case True
  then show ?thesis using assms by simp
next
  case False
  then have "(h + k) mod n = h + k - n"
    using assms by (simp add: mod_if)
  then show ?thesis using assms False by simp
qed

lemma next_head_mod:
  fixes h k n :: nat
  shows "((h + 1) mod n + k) mod n = (h + 1 + k) mod n"
  by (rule mod_add_left_eq)

lemma slot_before_push:
  fixes h n l i :: nat
  assumes "l < n" "i < l"
  shows "((h + 1) mod n + n - (l + 1) + i) mod n = (h + n - l + i) mod n"
proof -
  have "(h + 1) mod n + n - (l + 1) + i = (h + 1) mod n + (n - (l + 1) + i)"
    using assms by arith
  moreover have "h + 1 + (n - (l + 1) + i) = h + n - l + i"
    using assms by arith
  ultimately show ?thesis
    using next_head_mod [of h n "n - (l + 1) + i"] by (simp only:)
qed

lemma slot_before_push_full:
  fixes h n i :: nat
  shows "((h + 1) mod n + n - n + i) mod n = (h + n - n + (i + 1)) mod n"
proof -
  have "(h + 1) mod n + n - n + i = (h + 1) mod n + i"
    by arith
  moreover have "h + 1 + i = h + n - n + (i + 1)"
    by arith
  ultimately show ?thesis
    using next_head_mod [of h n i] by (simp only:)
qed

lemma slot_written:
  fixes h n :: nat
  assumes "h < n"
  shows "((h + 1) mod n + n - 1) mod n = h"
proof -
  have "(h + 1) mod n + n - 1 = (h + 1) mod n + (n - 1)"
    using assms by arith
  moreover have "(h + 1 + (n - 1)) mod n = h"
    using assms by simp
  ultimately show ?thesis
    using next_head_mod [of h n "n - 1"] by (simp only:)
qed

lemma slot_kept:
  fixes h n l j :: nat
  assumes "h < n" "l \<le> n" "j < l" "0 < n - l + j"
  shows "(h + n - l + j) mod n \<noteq> h"
proof -
  have "h + n - l + j = h + (n - l + j)"
    using assms by arith
  moreover have "(h + (n - l + j)) mod n \<noteq> h"
    using assms by (intro mod_shift_neq) simp_all
  ultimately show ?thesis by metis
qed

lemma holdsI:
  assumes "length (m_buffer rb) = unat N" "unat (m_head rb) < unat N"
    "unat (m_size rb) = length xs" "length xs \<le> unat N"
    "\<And>i. i < length xs \<Longrightarrow>
       m_buffer rb ! ((unat (m_head rb) + unat N - length xs + i) mod unat N) = xs ! i"
  shows "holds N rb xs"
  using assms unfolding holds_def by blast

lemma holds_new: "valid_capacity N \<Longrightarrow> holds N (RingBuffer_new N T0) []"
  by (simp add: holds_def RingBuffer_new_def valid_capacity_def word_less_nat_alt)

lemma holds_clear: "holds N rb xs \<Longrightarrow> holds N (clear rb) []"
  by (simp add: holds_def clear_def)

lemma holds_push:
  assumes N: "valid_capacity N" and H: "holds N rb xs"
  shows "holds N (push N v rb) (keep (unat N) xs v)"
proof -
  define n h b where "n = unat N" and "h = unat (m_head rb)" and "b = m_buffer rb"
  define h' where "h' = (h + 1) mod n"
  from N have n: "0 < n" "n < 2 ^ 63"
    by (simp_all add: valid_capacity_def word_less_nat_alt n_def)
  from H have len: "length b = n" and h: "h < n" and s: "unat (m_size rb) = length xs"
    and le: "length xs \<le> n"
    and el: "\<And>i. i < length xs \<Longrightarrow> b ! ((h + n - length xs + i) mod n) = xs ! i"
    unfolding holds_def n_def h_def b_def by blast+
  have head': "unat (m_head (push N v rb)) = h'"
    using h by (simp add: push_def unat_next_head n_def h_def h'_def)
  have buf': "m_buffer (push N v rb) = b[h := v]"
    by (simp add: push_def b_def h_def)
  have h'lt: "h' < n"
    using n by (simp add: h'_def)
  have written: "(h' + n - 1) mod n = h"
    unfolding h'_def by (rule slot_written [OF h])
  show ?thesis
  proof (cases "length xs < n")
    case True
    note notfull = this
    then have lt: "m_size rb < N"
      using s by (simp add: word_less_nat_alt n_def)
    have size': "unat (m_size (push N v rb)) = length xs + 1"
      using lt notfull s by (simp add: push_def unat_size_inc n_def)
    have k: "keep n xs v = xs @ [v]"
      using notfull by (simp add: keep_def)
    have "(b[h := v]) ! ((h' + n - (length xs + 1) + i) mod n) = (xs @ [v]) ! i"
      if i: "i < length xs + 1" for i
    proof (cases "i = length xs")
      case True
      then have "h' + n - (length xs + 1) + i = h' + n - 1"
        using notfull by arith
      then have "(h' + n - (length xs + 1) + i) mod n = h"
        using written by (simp only:)
      then show ?thesis using True len h by simp
    next
      case False
      then have i': "i < length xs" using i by simp
      have eq: "(h' + n - (length xs + 1) + i) mod n = (h + n - length xs + i) mod n"
        unfolding h'_def by (rule slot_before_push [OF notfull i'])
      have "(h + n - length xs + i) mod n \<noteq> h"
        using h le i' notfull by (intro slot_kept) simp_all
      then have "(b[h := v]) ! ((h + n - length xs + i) mod n) = b ! ((h + n - length xs + i) mod n)"
        by simp
      also have "\<dots> = xs ! i"
        by (rule el [OF i'])
      finally show ?thesis using eq i' by (simp add: nth_append)
    qed
    note slots = this
    have "holds N (push N v rb) (xs @ [v])"
    proof (rule holdsI)
      show "length (m_buffer (push N v rb)) = unat N"
        using len by (simp add: buf' n_def)
      show "unat (m_head (push N v rb)) < unat N"
        using h'lt by (simp add: head' n_def)
      show "unat (m_size (push N v rb)) = length (xs @ [v])"
        by (simp add: size')
      show "length (xs @ [v]) \<le> unat N"
        using notfull by (simp add: n_def)
      show "m_buffer (push N v rb) !
          ((unat (m_head (push N v rb)) + unat N - length (xs @ [v]) + i) mod unat N) =
          (xs @ [v]) ! i" if "i < length (xs @ [v])" for i
        using slots [of i] that unfolding head' buf' n_def [symmetric] by simp
    qed
    then show ?thesis
      using k by (simp add: n_def)
  next
    case False
    then have full: "length xs = n" using le by simp
    then have nlt: "\<not> m_size rb < N"
      using s by (simp add: word_less_nat_alt n_def)
    have size': "unat (m_size (push N v rb)) = n"
      using nlt s full by (simp add: push_def)
    have k: "keep n xs v = tl xs @ [v]"
      using False by (simp add: keep_def)
    have lk: "length (tl xs @ [v]) = n"
      using full n by simp
    have "(b[h := v]) ! ((h' + n - n + i) mod n) = (tl xs @ [v]) ! i"
      if i: "i < n" for i
    proof (cases "i = n - 1")
      case True
      then have "h' + n - n + i = h' + n - 1"
        using n by arith
      then have "(h' + n - n + i) mod n = h"
        using written by (simp only:)
      then show ?thesis using True len h full by (simp add: nth_append)
    next
      case False
      then have i': "i + 1 < n" using i by simp
      have eq: "(h' + n - n + i) mod n = (h + n - n + (i + 1)) mod n"
        unfolding h'_def by (rule slot_before_push_full)
      have "(h + n - n + (i + 1)) mod n \<noteq> h"
        using h i' by (intro slot_kept) simp_all
      then have "(b[h := v]) ! ((h + n - n + (i + 1)) mod n) = b ! ((h + n - n + (i + 1)) mod n)"
        by simp
      also have "\<dots> = xs ! (i + 1)"
        using el [of "i + 1"] i' full by simp
      also have "\<dots> = (tl xs @ [v]) ! i"
      proof -
        have "i < length (tl xs)" using i' full by simp
        then show ?thesis by (simp add: nth_append nth_tl)
      qed
      finally show ?thesis using eq by (simp only:)
    qed
    note slots = this
    have "holds N (push N v rb) (tl xs @ [v])"
    proof (rule holdsI)
      show "length (m_buffer (push N v rb)) = unat N"
        using len by (simp add: buf' n_def)
      show "unat (m_head (push N v rb)) < unat N"
        using h'lt by (simp add: head' n_def)
      show "unat (m_size (push N v rb)) = length (tl xs @ [v])"
        by (simp only: size' lk)
      show "length (tl xs @ [v]) \<le> unat N"
        by (simp only: lk n_def)
      show "m_buffer (push N v rb) !
          ((unat (m_head (push N v rb)) + unat N - length (tl xs @ [v]) + i) mod unat N) =
          (tl xs @ [v]) ! i" if "i < length (tl xs @ [v])" for i
        using slots [of i] that unfolding head' buf' lk n_def [symmetric] by (simp only:)
    qed
    then show ?thesis
      using k by (simp add: n_def)
  qed
qed


lemma holds_get:
  assumes N: "valid_capacity N" and H: "holds N rb xs"
  shows "get N rb i = (if unat i < length xs then Inr (xs ! unat i) else Inl OutOfRange)"
proof (cases "unat i < length xs")
  case True
  from H have h: "unat (m_head rb) < unat N" and s: "unat (m_size rb) = length xs"
    and le: "length xs \<le> unat N"
    and el: "\<And>i. i < length xs \<Longrightarrow>
      m_buffer rb ! ((unat (m_head rb) + unat N - length xs + i) mod unat N) = xs ! i"
    unfolding holds_def by blast+
  from N have n: "unat N < 2 ^ 63"
    by (simp add: valid_capacity_def)
  have "unat ((m_head rb + N - m_size rb + i) mod N) =
      (unat (m_head rb) + unat N - length xs + unat i) mod unat N"
    using unat_index [of "m_head rb" N "m_size rb" i] h s le True n by simp
  moreover have "\<not> m_size rb \<le> i"
    using True s by (simp add: word_le_nat_alt)
  ultimately show ?thesis
    using True el [OF True] by (simp add: get_def)
next
  case False
  from H have "unat (m_size rb) = length xs"
    unfolding holds_def by blast
  then have "m_size rb \<le> i"
    using False by (simp add: word_le_nat_alt)
  then show ?thesis using False by (simp add: get_def)
qed

lemma holds_latest:
  assumes N: "valid_capacity N" and H: "holds N rb xs"
  shows "latest N rb = (if xs = [] then Inl EmptyBuffer else Inr (last xs))"
proof (cases "xs = []")
  case True
  from H have "unat (m_size rb) = length xs"
    unfolding holds_def by blast
  then have "m_size rb = 0"
    using True by (simp add: unat_eq_0)
  then show ?thesis using True by (simp add: latest_def)
next
  case False
  from H have h: "unat (m_head rb) < unat N" and s: "unat (m_size rb) = length xs"
    and le: "length xs \<le> unat N"
    and el: "\<And>i. i < length xs \<Longrightarrow>
      m_buffer rb ! ((unat (m_head rb) + unat N - length xs + i) mod unat N) = xs ! i"
    unfolding holds_def by blast+
  from N have n: "unat N < 2 ^ 63"
    by (simp add: valid_capacity_def)
  have pos: "0 < length xs" using False by simp
  then have "m_size rb \<noteq> 0"
    using s by (auto simp: unat_eq_0)
  moreover have "unat ((m_head rb + N - 1) mod N) = (unat (m_head rb) + unat N - 1) mod unat N"
    by (rule unat_last_index [OF h n])
  moreover have "unat (m_head rb) + unat N - length xs + (length xs - 1) = unat (m_head rb) + unat N - 1"
    using pos le by arith
  moreover have "xs ! (length xs - 1) = last xs"
    using False by (simp add: last_conv_nth)
  ultimately show ?thesis
    using False el [of "length xs - 1"] pos by (simp add: latest_def)
qed

lemma getAll_loop_holds:
  assumes N: "valid_capacity N" and H: "holds N rb xs"
  shows "unat i \<le> length xs \<Longrightarrow> getAll_loop N rb i acc = acc @ drop (unat i) xs"
proof (induction "length xs - unat i" arbitrary: i acc)
  case 0
  from H have "unat (m_size rb) = length xs"
    unfolding holds_def by blast
  with 0 have "\<not> i < m_size rb" and "drop (unat i) xs = []"
    by (simp_all add: word_less_nat_alt)
  then show ?case
    by (simp add: getAll_loop.simps [of N rb i acc])
next
  case (Suc k)
  from H have h: "unat (m_head rb) < unat N" and s: "unat (m_size rb) = length xs"
    and le: "length xs \<le> unat N"
    and el: "\<And>i. i < length xs \<Longrightarrow>
      m_buffer rb ! ((unat (m_head rb) + unat N - length xs + i) mod unat N) = xs ! i"
    unfolding holds_def by blast+
  from N have n: "unat N < 2 ^ 63"
    by (simp add: valid_capacity_def)
  from Suc.hyps(2) have i: "unat i < length xs" by simp
  then have lt: "i < m_size rb"
    using s by (simp add: word_less_nat_alt)
  have idx: "unat ((m_head rb + N - m_size rb + i) mod N) =
      (unat (m_head rb) + unat N - length xs + unat i) mod unat N"
    using unat_index [of "m_head rb" N "m_size rb" i] h s le i n by simp
  have next_i: "unat (i + 1) = unat i + 1"
    using i le by (intro unat_size_inc [of i N]) simp
  have "getAll_loop N rb i acc = getAll_loop N rb (i + 1) (acc @ [xs ! unat i])"
    using idx el [OF i] lt by (simp add: getAll_loop.simps [of N rb i acc])
  also have "\<dots> = (acc @ [xs ! unat i]) @ drop (unat (i + 1)) xs"
    using Suc.hyps(2) i next_i by (intro Suc.hyps(1)) simp_all
  also have "\<dots> = acc @ drop (unat i) xs"
    using i next_i by (simp add: Cons_nth_drop_Suc)
  finally show ?case .
qed

lemma holds_getAll:
  assumes "valid_capacity N" "holds N rb xs"
  shows "getAll N rb = xs"
  using getAll_loop_holds [OF assms, of 0 "[]"] by (simp add: getAll_def)

lemma holds_size: "holds N rb xs \<Longrightarrow> unat (size_rb rb) = length xs"
  unfolding holds_def size_rb_def by blast

lemma keep_last:
  assumes "0 < n"
  shows "keep n (drop (length ps - n) ps) v = drop (length (ps @ [v]) - n) (ps @ [v])"
proof (cases "length ps < n")
  case True
  then show ?thesis by (simp add: keep_def)
next
  case False
  then have "tl (drop (length ps - n) ps) = drop (Suc (length ps) - n) ps"
    by (simp add: drop_Suc [symmetric] tl_drop Suc_diff_le)
  then show ?thesis using False assms by (simp add: keep_def)
qed

lemma holds_pushes:
  assumes "valid_capacity N" "holds N rb xs"
  shows "holds N (pushes N vs rb) (foldl (keep (unat N)) xs vs)"
proof (induction vs rule: rev_induct)
  case Nil
  then show ?case using assms by (simp add: pushes_def)
next
  case (snoc v vs)
  then show ?case
    using holds_push [OF assms(1), of "pushes N vs rb" _ v] by (simp add: pushes_def)
qed

lemma foldl_keep_retained:
  assumes "0 < n"
  shows "foldl (keep n) (retained n ps) vs = retained n (ps @ vs)"
proof (induction vs rule: rev_induct)
  case Nil
  then show ?case by simp
next
  case (snoc v vs)
  then show ?case
    using keep_last [OF assms, of "ps @ vs" v] by (simp add: retained_def)
qed

lemma retained_append_full: "n \<le> length vs \<Longrightarrow> retained n (ps @ vs) = retained n vs"
  by (simp add: retained_def)

lemma valid_capacity_pos: "valid_capacity N \<Longrightarrow> 0 < unat N"
  by (simp add: valid_capacity_def word_less_nat_alt)

lemma holds_apply_op:
  assumes "valid_capacity N" "holds N rb xs"
  shows "holds N (apply_op N rb op) (contents_step (unat N) xs op)"
  using assms by (cases op) (simp_all add: holds_push holds_clear)

lemma holds_run_ops:
  assumes "valid_capacity N" "holds N rb xs"
  shows "holds N (run_ops N rb ops) (foldl (contents_step (unat N)) xs ops)"
proof (induction ops rule: rev_induct)
  case Nil
  then show ?case using assms by (simp add: run_ops_def)
next
  case (snoc op ops)
  then show ?case
    using holds_apply_op [OF assms(1), of "run_ops N rb ops" _ op] by (simp add: run_ops_def)
qed

lemma contents_retained:
  assumes "0 < n"
  shows "foldl (contents_step n) [] ops = retained n (pushed ops)"
proof (induction ops rule: rev_induct)
  case Nil
  then show ?case by (simp add: retained_def pushed_def)
next
  case (snoc op ops)
  show ?case
  proof (cases op)
    case (Push v)
    then show ?thesis
      using snoc keep_last [OF assms, of "pushed ops" v] by (simp add: retained_def pushed_def)
  next
    case Clear
    then show ?thesis by (simp add: retained_def pushed_def)
  qed
qed

lemma holds_run_ops_new:
  assumes "valid_capacity N"
  shows "holds N (run_ops N (RingBuffer_new N T0) ops) (retained (unat N) (pushed ops))"
  using holds_run_ops [OF assms holds_new [OF assms], where ops = ops and ?T0.1 = T0]
    contents_retained [OF valid_capacity_pos [OF assms], of ops]
  by simp

lemma holds_pushes_after_ops:
  assumes "valid_capacity N"
  shows "holds N (pushes N vs (run_ops N (RingBuffer_new N T0) ops))
    (retained (unat N) (pushed ops @ vs))"
  using holds_pushes [OF assms holds_run_ops_new [OF assms, of T0 ops], of vs]
    foldl_keep_retained [OF valid_capacity_pos [OF assms], of "pushed ops" vs]
  by simp

lemma last_retained: "0 < n \<Longrightarrow> ps \<noteq> [] \<Longrightarrow> last (retained n ps) = last ps"
  by (simp add: retained_def)

lemma retained_Nil_iff: "0 < n \<Longrightarrow> retained n ps = [] \<longleftrightarrow> ps = []"
  by (cases ps) (auto simp add: retained_def)

section \<open>The oldest-overwrite law of the history buffer\<close>

text \<open>
  C1. Take a buffer of capacity \<open>N\<close> in any state that a fresh buffer reaches by calls of
  \<^verbatim>\<open>push\<close> and \<^verbatim>\<open>clear\<close> (the fresh buffer itself for no call). After more than \<open>N\<close>
  further pushes, \<^verbatim>\<open>size()\<close> is \<open>N\<close> and \<^verbatim>\<open>get(i)\<close>, for every \<open>i < N\<close>, is the pushed
  value number \<open>pushCount - N + i\<close> (counting from 0): each push into the full buffer has
  evicted the oldest sample, and the snapshot \<^verbatim>\<open>getAll()\<close> is the last \<open>N\<close> pushed values
  in the order of the pushes.
\<close>

theorem oldest_overwrite_law:
  assumes "valid_capacity N" and "unat N < length vs"
  shows "size_rb (pushes N vs (run_ops N (RingBuffer_new N T0) ops)) = N \<and>
    (\<forall>i<N. get N (pushes N vs (run_ops N (RingBuffer_new N T0) ops)) i
       = Inr (vs ! (length vs - unat N + unat i))) \<and>
    getAll N (pushes N vs (run_ops N (RingBuffer_new N T0) ops)) = drop (length vs - unat N) vs"
proof -
  let ?rb = "pushes N vs (run_ops N (RingBuffer_new N T0) ops)"
  have "holds N ?rb (retained (unat N) (pushed ops @ vs))"
    by (rule holds_pushes_after_ops [OF assms(1)])
  then have H: "holds N ?rb (retained (unat N) vs)"
    using assms(2) by (simp add: retained_append_full)
  have len: "length (retained (unat N) vs) = unat N"
    using assms(2) by (simp add: retained_def)
  have "unat (size_rb ?rb) = unat N"
    using holds_size [OF H] len by simp
  then have size: "size_rb ?rb = N"
    by (simp add: word_unat_eq_iff)
  have "get N ?rb i = Inr (vs ! (length vs - unat N + unat i))" if "i < N" for i
  proof -
    from that have "unat i < unat N"
      by (simp add: word_less_nat_alt)
    then show ?thesis
      using holds_get [OF assms(1) H, of i] len assms(2) by (simp add: retained_def)
  qed
  moreover have "getAll N ?rb = drop (length vs - unat N) vs"
    using holds_getAll [OF assms(1) H] by (simp add: retained_def)
  ultimately show ?thesis
    using size by blast
qed

theorem oldest_overwrite_law_witness:
  "valid_capacity 2 \<and> unat (2 :: size_t) < length [10, 20, 30 :: nat] \<and>
   size_rb (pushes 2 [10, 20, 30 :: nat] (RingBuffer_new 2 0)) = 2 \<and>
   get 2 (pushes 2 [10, 20, 30 :: nat] (RingBuffer_new 2 0)) 0 = Inr 20 \<and>
   get 2 (pushes 2 [10, 20, 30 :: nat] (RingBuffer_new 2 0)) 1 = Inr 30 \<and>
   getAll 2 (pushes 2 [10, 20, 30 :: nat] (RingBuffer_new 2 0)) = [20, 30]"
proof -
  have v: "valid_capacity 2"
    by (simp add: valid_capacity_def)
  have l: "unat (2 :: size_t) < length [10, 20, 30 :: nat]"
    by simp
  from oldest_overwrite_law [OF v l, of 0 "[]"]
  have "size_rb (pushes 2 [10, 20, 30 :: nat] (RingBuffer_new 2 0)) = 2"
    and g: "\<forall>i<2. get 2 (pushes 2 [10, 20, 30 :: nat] (RingBuffer_new 2 0)) i
      = Inr ([10, 20, 30] ! (length [10, 20, 30 :: nat] - unat (2 :: size_t) + unat i))"
    and "getAll 2 (pushes 2 [10, 20, 30 :: nat] (RingBuffer_new 2 0)) = [20, 30]"
    by (simp_all add: run_ops_def)
  moreover from g have "get 2 (pushes 2 [10, 20, 30 :: nat] (RingBuffer_new 2 0)) 0 = Inr 20"
    by (elim allE [of _ 0]) simp
  moreover from g have "get 2 (pushes 2 [10, 20, 30 :: nat] (RingBuffer_new 2 0)) 1 = Inr 30"
    by (elim allE [of _ 1]) simp
  ultimately show ?thesis
    using v l by blast
qed

section \<open>The raises-iff law of the buffer accessors\<close>

text \<open>
  C10. In every state that a fresh buffer reaches by calls of \<^verbatim>\<open>push\<close> and \<^verbatim>\<open>clear\<close>,
  \<^verbatim>\<open>get(index)\<close> fails with the out-of-range error exactly when \<open>index \<ge> size()\<close> and
  otherwise returns the retained sample at chronological position \<open>index\<close> (0 the oldest),
  without clamping the index; \<^verbatim>\<open>latest()\<close> fails with the empty-buffer error exactly
  when no sample is retained and otherwise returns the sample pushed last. The retained
  samples are the last \<open>N\<close> values pushed since the last \<^verbatim>\<open>clear\<close>.
\<close>

theorem accessors_raise_iff:
  assumes "valid_capacity N"
  shows "(get N (run_ops N (RingBuffer_new N T0) ops) i = Inl OutOfRange
          \<longleftrightarrow> i \<ge> size_rb (run_ops N (RingBuffer_new N T0) ops)) \<and>
    (i < size_rb (run_ops N (RingBuffer_new N T0) ops) \<longrightarrow>
       get N (run_ops N (RingBuffer_new N T0) ops) i = Inr (retained (unat N) (pushed ops) ! unat i)) \<and>
    (latest N (run_ops N (RingBuffer_new N T0) ops) = Inl EmptyBuffer
          \<longleftrightarrow> size_rb (run_ops N (RingBuffer_new N T0) ops) = 0) \<and>
    (size_rb (run_ops N (RingBuffer_new N T0) ops) \<noteq> 0 \<longrightarrow>
       latest N (run_ops N (RingBuffer_new N T0) ops) = Inr (last (pushed ops))) \<and>
    unat (size_rb (run_ops N (RingBuffer_new N T0) ops)) = min (length (pushed ops)) (unat N)"
proof -
  let ?rb = "run_ops N (RingBuffer_new N T0) ops" and ?xs = "retained (unat N) (pushed ops)"
  have H: "holds N ?rb ?xs"
    by (rule holds_run_ops_new [OF assms])
  have n: "0 < unat N"
    by (rule valid_capacity_pos [OF assms])
  have size: "unat (size_rb ?rb) = length ?xs"
    by (rule holds_size [OF H])
  have le: "i \<ge> size_rb ?rb \<longleftrightarrow> \<not> unat i < length ?xs"
    using size by (auto simp add: word_le_nat_alt)
  have lt: "i < size_rb ?rb \<longleftrightarrow> unat i < length ?xs"
    using size by (simp add: word_less_nat_alt)
  have z: "size_rb ?rb = 0 \<longleftrightarrow> pushed ops = []"
    using size retained_Nil_iff [OF n, of "pushed ops"] by (auto simp add: unat_eq_0)
  have g: "get N ?rb i = (if unat i < length ?xs then Inr (?xs ! unat i) else Inl OutOfRange)"
    by (rule holds_get [OF assms H])
  have l: "latest N ?rb = (if pushed ops = [] then Inl EmptyBuffer else Inr (last (pushed ops)))"
    using holds_latest [OF assms H] retained_Nil_iff [OF n, of "pushed ops"]
      last_retained [OF n, of "pushed ops"] by simp
  have 1: "get N ?rb i = Inl OutOfRange \<longleftrightarrow> i \<ge> size_rb ?rb"
    unfolding g le by simp
  have 2: "i < size_rb ?rb \<longrightarrow> get N ?rb i = Inr (?xs ! unat i)"
    unfolding g lt by simp
  have 3: "latest N ?rb = Inl EmptyBuffer \<longleftrightarrow> size_rb ?rb = 0"
    unfolding l z by simp
  have 4: "size_rb ?rb \<noteq> 0 \<longrightarrow> latest N ?rb = Inr (last (pushed ops))"
    unfolding l z by simp
  have 5: "unat (size_rb ?rb) = min (length (pushed ops)) (unat N)"
    unfolding size by (simp add: retained_def)
  from 1 2 3 4 5 show ?thesis by blast
qed

theorem accessors_raise_iff_witness:
  "valid_capacity 2 \<and>
   size_rb (run_ops 2 (RingBuffer_new 2 0) [Push 7, Clear, Push 10, Push 20, Push (30 :: nat)]) = 2 \<and>
   get 2 (run_ops 2 (RingBuffer_new 2 0) [Push 7, Clear, Push 10, Push 20, Push (30 :: nat)]) 1 = Inr 30 \<and>
   latest 2 (run_ops 2 (RingBuffer_new 2 0) [Push 7, Clear, Push 10, Push 20, Push (30 :: nat)]) = Inr 30"
proof -
  have v: "valid_capacity 2"
    by (simp add: valid_capacity_def)
  have s: "size_rb (run_ops 2 (RingBuffer_new 2 0) [Push 7, Clear, Push 10, Push 20, Push (30 :: nat)]) = 2"
    by (simp add: run_ops_def push_def clear_def RingBuffer_new_def size_rb_def)
  show ?thesis
    using v s accessors_raise_iff [OF v, of 0 "[Push 7, Clear, Push 10, Push 20, Push (30 :: nat)]" 1]
    by (simp add: pushed_def retained_def)
qed

section \<open>Rate calculator: the sample window\<close>

lemma accumulate_sum: "accumulate xs a = a + sum_list xs"
  unfolding accumulate_def by (induction xs arbitrary: a) (simp_all add: add.assoc)

lemma calculateAverage_mean: "calculateAverage c = mean (getSamples c)"
  by (simp add: calculateAverage_def mean_def getSamples_def accumulate_sum Let_def)

lemma calculateAverage_cong: "m_samples c = m_samples c' \<Longrightarrow> calculateAverage c = calculateAverage c'"
  by (simp add: calculateAverage_def)

lemma update_samples:
  "m_samples (FpsCalculator_update c dt) =
     (if dt \<le> 0 then m_samples c else push MAX_HISTORY (rate dt) (m_samples c))"
  by (simp add: FpsCalculator_update_def Let_def rate_def)

lemma update_average:
  assumes "0 < dt"
  shows "m_averageFPS (FpsCalculator_update c dt) = calculateAverage (FpsCalculator_update c dt)"
proof -
  define c3 where "c3 = c\<lparr>m_currentFPS := rate dt, m_samples := push MAX_HISTORY (rate dt) (m_samples c)\<rparr>"
  have u: "FpsCalculator_update c dt = c3\<lparr>m_averageFPS := calculateAverage c3\<rparr>"
    using assms by (simp add: FpsCalculator_update_def Let_def c3_def rate_def)
  show ?thesis
    unfolding u by (simp add: calculateAverage_cong [of "c3\<lparr>m_averageFPS := calculateAverage c3\<rparr>" c3])
qed

lemma update_current:
  "m_currentFPS (FpsCalculator_update c dt) = (if dt \<le> 0 then m_currentFPS c else rate dt)"
  by (simp add: FpsCalculator_update_def Let_def rate_def)

lemma valid_MAX_HISTORY: "valid_capacity MAX_HISTORY"
  by (simp add: valid_capacity_def MAX_HISTORY_def)

lemma unat_MAX_HISTORY: "unat MAX_HISTORY = 600"
  by (simp add: MAX_HISTORY_def)

lemma feed_snoc: "feed c (dts @ [dt]) = FpsCalculator_update (feed c dts) dt"
  by (simp add: feed_def)

lemma mean_replicate: "0 < m \<Longrightarrow> mean (replicate m r) = r"
  by (simp add: mean_def sum_list_replicate)

lemma retained_replicate: "retained n (replicate k r) = replicate (min k n) r"
  by (simp add: retained_def min_def)

lemma reset_samples: "m_samples (FpsCalculator_reset c) = clear (m_samples c)"
  by (simp add: FpsCalculator_reset_def)

lemma calc_run_snoc: "calc_run c (ops @ [op]) = calc_step (calc_run c ops) op"
  by (simp add: calc_run_def)

lemma pushed_samples_snoc: "pushed_samples (ops @ [op]) = samples_step (pushed_samples ops) op"
  by (simp add: pushed_samples_def)

lemma holds_calc_run:
  "holds MAX_HISTORY (m_samples (calc_run (FpsCalculator_new h) ops))
     (retained 600 (pushed_samples ops))"
proof (induction ops rule: rev_induct)
  case Nil
  show ?case
    using holds_new [OF valid_MAX_HISTORY, of 0]
    by (simp add: calc_run_def pushed_samples_def retained_def FpsCalculator_new_def)
next
  case (snoc op ops)
  let ?c = "calc_run (FpsCalculator_new h) ops" and ?ps = "pushed_samples ops"
  show ?case
  proof (cases op)
    case (Tick dt)
    show ?thesis
    proof (cases "0 < dt")
      case True
      have "holds MAX_HISTORY (push MAX_HISTORY (rate dt) (m_samples ?c))
          (keep 600 (retained 600 ?ps) (rate dt))"
        using holds_push [OF valid_MAX_HISTORY snoc, of "rate dt"] by (simp add: unat_MAX_HISTORY)
      moreover have "keep 600 (retained 600 ?ps) (rate dt) = retained 600 (?ps @ [rate dt])"
        using keep_last [of 600 ?ps "rate dt"] by (simp add: retained_def)
      ultimately show ?thesis
        using True Tick by (simp add: calc_run_snoc pushed_samples_snoc update_samples)
    next
      case False
      then show ?thesis
        using snoc Tick by (simp add: calc_run_snoc pushed_samples_snoc update_samples)
    qed
  next
    case Reset
    have "holds MAX_HISTORY (clear (m_samples ?c)) []"
      by (rule holds_clear [OF snoc])
    then show ?thesis
      using Reset by (simp add: calc_run_snoc pushed_samples_snoc reset_samples retained_def)
  qed
qed

lemma getSamples_calc_run:
  "getSamples (calc_run (FpsCalculator_new h) ops) = retained 600 (pushed_samples ops)"
  unfolding getSamples_def by (rule holds_getAll [OF valid_MAX_HISTORY holds_calc_run])

lemma feed_calc_run: "feed (calc_run c ops) dts = calc_run c (ops @ map Tick dts)"
proof (induction dts rule: rev_induct)
  case Nil
  then show ?case by (simp add: feed_def)
next
  case (snoc dt dts)
  then show ?case
    by (simp add: feed_snoc calc_run_def)
qed

lemma pushed_samples_ticks:
  assumes "0 < d"
  shows "pushed_samples (ops @ replicate k (Tick d)) = pushed_samples ops @ replicate k (rate d)"
proof (induction k)
  case 0
  then show ?case by simp
next
  case (Suc k)
  have "ops @ replicate (Suc k) (Tick d) = (ops @ replicate k (Tick d)) @ [Tick d]"
    by (simp add: replicate_append_same)
  then have "pushed_samples (ops @ replicate (Suc k) (Tick d)) =
      samples_step (pushed_samples (ops @ replicate k (Tick d))) (Tick d)"
    by (simp only: pushed_samples_snoc)
  also have "\<dots> = pushed_samples ops @ replicate (Suc k) (rate d)"
    using assms Suc by (simp add: replicate_append_same)
  finally show ?case .
qed

lemma average_constant_feed:
  assumes "0 < d" "1 \<le> k" and empty: "getSamples (calc_run (FpsCalculator_new h) ops) = []"
  shows "getAverageFPS (feed (calc_run (FpsCalculator_new h) ops) (replicate k d)) = rate d"
proof -
  let ?c = "calc_run (FpsCalculator_new h) ops"
  from assms(2) obtain j where k: "k = Suc j"
    by (cases k) simp_all
  have "replicate k d = replicate j d @ [d]"
    unfolding k by (simp add: replicate_append_same)
  then have "feed ?c (replicate k d) = FpsCalculator_update (feed ?c (replicate j d)) d"
    by (simp add: feed_snoc)
  then have "getAverageFPS (feed ?c (replicate k d)) = mean (getSamples (feed ?c (replicate k d)))"
    using update_average [OF assms(1)] by (simp add: getAverageFPS_def calculateAverage_mean)
  also have "getSamples (feed ?c (replicate k d)) =
      retained 600 (pushed_samples ops @ replicate k (rate d))"
    by (simp add: feed_calc_run getSamples_calc_run pushed_samples_ticks [OF assms(1)])
  also have "pushed_samples ops = []"
    using empty retained_Nil_iff [of 600 "pushed_samples ops"] by (simp add: getSamples_calc_run)
  also have "mean (retained 600 ([] @ replicate k (rate d))) = mean (replicate (min k 600) (rate d))"
    by (simp add: retained_replicate)
  also have "\<dots> = rate d"
    using assms(2) by (intro mean_replicate) simp
  finally show ?thesis .
qed


lemma rate_unclamped: "1 / 1000 \<le> d \<Longrightarrow> rate d = 1 / d"
proof -
  assume d: "1 / 1000 \<le> d"
  then have "0 < d" by simp
  then have "1 / d \<le> 1000"
    using d by (simp add: field_simps)
  moreover have "0 \<le> 1 / d" using \<open>0 < d\<close> by simp
  ultimately show ?thesis by (simp add: rate_def MAX_FPS_def)
qed

lemma rate_clamped: "0 < d \<Longrightarrow> d \<le> 1 / 1000 \<Longrightarrow> rate d = 1000"
proof -
  assume d: "0 < d" "d \<le> 1 / 1000"
  then have "1000 \<le> 1 / d"
    by (simp add: field_simps)
  then show ?thesis by (simp add: rate_def MAX_FPS_def)
qed

text \<open>
  The rolling mean that the calculator reports is 0 after construction and after a
  reset, when the buffer is empty.
\<close>

lemma getAverageFPS_empty:
  "getAverageFPS (FpsCalculator_new h) = 0 \<and> getAverageFPS (FpsCalculator_reset c) = 0"
  by (simp add: getAverageFPS_def FpsCalculator_new_def FpsCalculator_reset_def)

section \<open>Updates with a non-positive elapsed time\<close>

text \<open>
  C9. For every \<open>deltaTime \<le> 0\<close>, \<^verbatim>\<open>update(deltaTime)\<close> returns without changing
  anything: the calculator is the same afterwards, so the current rate, the rolling mean,
  the number of buffered samples and the buffered samples are unchanged.
\<close>

theorem update_nonpositive_noop:
  assumes "deltaTime \<le> 0"
  shows "FpsCalculator_update c deltaTime = c \<and>
    getCurrentFPS (FpsCalculator_update c deltaTime) = getCurrentFPS c \<and>
    getAverageFPS (FpsCalculator_update c deltaTime) = getAverageFPS c \<and>
    getSampleCount (FpsCalculator_update c deltaTime) = getSampleCount c \<and>
    getSamples (FpsCalculator_update c deltaTime) = getSamples c"
  using assms by (simp add: FpsCalculator_update_def)

theorem update_nonpositive_noop_witness:
  "(0 :: real) \<le> 0 \<and>
   FpsCalculator_update (FpsCalculator_update (FpsCalculator_new 120) (1 / 60)) 0
     = FpsCalculator_update (FpsCalculator_new 120) (1 / 60) \<and>
   getCurrentFPS (FpsCalculator_update (FpsCalculator_update (FpsCalculator_new 120) (1 / 60)) 0) = 60"
proof -
  have h: "(0 :: real) \<le> 0"
    by simp
  have "getCurrentFPS (FpsCalculator_update (FpsCalculator_new 120) (1 / 60)) = 60"
    by (simp add: getCurrentFPS_def update_current rate_def MAX_FPS_def)
  then show ?thesis
    using update_nonpositive_noop [OF h, of "FpsCalculator_update (FpsCalculator_new 120) (1 / 60)"]
    by simp
qed

section \<open>The rolling mean\<close>

text \<open>
  C2, as the specification states it, fails where the rate is clamped: one update with
  \<open>deltaTime = 1 / 2000\<close> on a fresh calculator gives the rolling mean
  \<open>MAX_FPS = 1000\<close>, not \<open>1 / deltaTime = 2000\<close>.
\<close>

theorem rolling_mean_counterexample:
  "(0 :: real) < 1 / 2000 \<and> (1 :: nat) \<le> unat MAX_HISTORY \<and>
   getAverageFPS (feed (FpsCalculator_new 120) (replicate 1 (1 / 2000))) = 1000 \<and>
   getAverageFPS (feed (FpsCalculator_new 120) (replicate 1 (1 / 2000))) \<noteq> 1 / (1 / 2000)"
  by code_simp

text \<open>
  C2, amended. After every update with \<open>deltaTime > 0\<close> the rolling mean is the arithmetic
  mean of the snapshot of the buffer after that update, computed from the whole snapshot;
  the mean of an empty buffer is 0; in every state that a fresh calculator reaches by
  calls of \<^verbatim>\<open>update\<close> and \<^verbatim>\<open>reset\<close> the snapshot is the last 600 samples pushed since
  the last reset, a sample being the rate clamped to \<open>[0, MAX_FPS]\<close>. Feeding the same
  \<open>d\<close> for \<open>k \<ge> 1\<close> updates, starting from such a state with an empty buffer, gives the
  rolling mean \<open>1 / d\<close> when \<open>d \<ge> 1 / 1000\<close>, and \<open>MAX_FPS\<close> when \<open>0 < d \<le> 1 / 1000\<close>.
\<close>

theorem rolling_mean_law:
  "(0 < dt \<longrightarrow> getAverageFPS (FpsCalculator_update c dt) = mean (getSamples (FpsCalculator_update c dt))) \<and>
   calculateAverage c = mean (getSamples c) \<and>
   (getSamples c = [] \<longrightarrow> calculateAverage c = 0) \<and>
   getSamples (calc_run (FpsCalculator_new h) ops) = retained 600 (pushed_samples ops) \<and>
   (getSamples (calc_run (FpsCalculator_new h) ops) = [] \<and> 1 / 1000 \<le> d \<and> 1 \<le> k \<longrightarrow>
      getAverageFPS (feed (calc_run (FpsCalculator_new h) ops) (replicate k d)) = 1 / d) \<and>
   (getSamples (calc_run (FpsCalculator_new h) ops) = [] \<and> 0 < d \<and> d \<le> 1 / 1000 \<and> 1 \<le> k \<longrightarrow>
      getAverageFPS (feed (calc_run (FpsCalculator_new h) ops) (replicate k d)) = MAX_FPS)"
proof -
  have 1: "0 < dt \<longrightarrow> getAverageFPS (FpsCalculator_update c dt) = mean (getSamples (FpsCalculator_update c dt))"
    using update_average [of dt c] by (simp add: getAverageFPS_def calculateAverage_mean)
  have 2: "calculateAverage c = mean (getSamples c)"
    by (rule calculateAverage_mean)
  have 3: "getSamples c = [] \<longrightarrow> calculateAverage c = 0"
    by (simp add: calculateAverage_mean mean_def)
  have 4: "getSamples (calc_run (FpsCalculator_new h) ops) = retained 600 (pushed_samples ops)"
    by (rule getSamples_calc_run)
  have 5: "getSamples (calc_run (FpsCalculator_new h) ops) = [] \<and> 1 / 1000 \<le> d \<and> 1 \<le> k \<longrightarrow>
      getAverageFPS (feed (calc_run (FpsCalculator_new h) ops) (replicate k d)) = 1 / d"
  proof
    assume a: "getSamples (calc_run (FpsCalculator_new h) ops) = [] \<and> 1 / 1000 \<le> d \<and> 1 \<le> k"
    then have "0 < d" by simp
    then show "getAverageFPS (feed (calc_run (FpsCalculator_new h) ops) (replicate k d)) = 1 / d"
      using a average_constant_feed [of d k h ops] rate_unclamped [of d] by simp
  qed
  have 6: "getSamples (calc_run (FpsCalculator_new h) ops) = [] \<and> 0 < d \<and> d \<le> 1 / 1000 \<and> 1 \<le> k \<longrightarrow>
      getAverageFPS (feed (calc_run (FpsCalculator_new h) ops) (replicate k d)) = MAX_FPS"
    using average_constant_feed [of d k h ops] rate_clamped [of d] by (simp add: MAX_FPS_def)
  from 1 2 3 4 5 6 show ?thesis by blast
qed

theorem rolling_mean_law_witness:
  "(0 :: real) < 1 / 60 \<and>
   getSamples (calc_run (FpsCalculator_new 120) [Tick (1 / 30), Reset]) = [] \<and>
   calculateAverage (calc_run (FpsCalculator_new 120) [Tick (1 / 30), Reset]) = 0 \<and>
   getAverageFPS (FpsCalculator_update (calc_run (FpsCalculator_new 120) [Tick (1 / 30), Reset]) (1 / 60))
     = mean (getSamples (FpsCalculator_update (calc_run (FpsCalculator_new 120) [Tick (1 / 30), Reset]) (1 / 60))) \<and>
   ((1 / 1000 :: real) \<le> 1 / 60 \<and> (1 :: nat) \<le> 3) \<and>
   getAverageFPS (feed (calc_run (FpsCalculator_new 120) [Tick (1 / 30), Reset]) (replicate 3 (1 / 60))) = 60 \<and>
   ((0 :: real) < 1 / 2000 \<and> (1 / 2000 :: real) \<le> 1 / 1000 \<and> (1 :: nat) \<le> 2) \<and>
   getAverageFPS (feed (calc_run (FpsCalculator_new 120) [Tick (1 / 30), Reset]) (replicate 2 (1 / 2000))) = 1000"
proof -
  let ?c = "calc_run (FpsCalculator_new 120) [Tick (1 / 30), Reset]"
  have e: "getSamples ?c = []"
    using rolling_mean_law [of 1 ?c 120 "[Tick (1 / 30), Reset]" 1 1]
    by (simp add: pushed_samples_def retained_def)
  show ?thesis
    using e rolling_mean_law [of "1 / 60" ?c 120 "[Tick (1 / 30), Reset]" "1 / 60" 3]
      rolling_mean_law [of "1 / 60" ?c 120 "[Tick (1 / 30), Reset]" "1 / 2000" 2]
    by (simp add: MAX_FPS_def)
qed

section \<open>The history size given at construction\<close>

text \<open>
  C3. A calculator constructed with history size 2 stores that size in
  \<^verbatim>\<open>m_historySize\<close> and never reads it: after three updates it retains three samples,
  and the snapshot and the rolling mean cover all three.
\<close>

theorem history_size_not_enforced:
  "m_historySize (FpsCalculator_new 2) = 2 \<and>
   getSampleCount (feed (FpsCalculator_new 2) [1 / 100, 1 / 100, 1 / 100]) = 3 \<and>
   getSamples (feed (FpsCalculator_new 2) [1 / 100, 1 / 100, 1 / 100]) = [100, 100, 100] \<and>
   getAverageFPS (feed (FpsCalculator_new 2) [1 / 100, 1 / 100, 1 / 100]) = 100"
  by code_simp

section \<open>Statistics tracker: the percentile and the summary\<close>

lemma calculatePercentile_spec:
  assumes "0 \<le> p"
  shows "calculatePercentile xs p = percentile_spec xs p"
proof -
  consider "xs = []" | "length xs = 1" | "2 \<le> length xs"
    by (cases xs) (auto simp: Suc_le_eq)
  then show ?thesis
  proof cases
    case 1
    then show ?thesis by (simp add: calculatePercentile_def percentile_spec_def)
  next
    case 2
    then show ?thesis by (auto simp add: calculatePercentile_def percentile_spec_def)
  next
    case 3
    define idx where "idx = p * real (length xs - 1)"
    have idx0: "0 \<le> idx" using assms by (simp add: idx_def)
    then have f0: "0 \<le> \<lfloor>idx\<rfloor>" and c0: "0 \<le> \<lceil>idx\<rceil>" by simp_all
    have lo: "clamp_index (length xs) \<lfloor>idx\<rfloor> = min (nat \<lfloor>idx\<rfloor>) (length xs - 1)"
      using f0 3 unfolding clamp_index_def by linarith
    have hi: "clamp_index (length xs) \<lceil>idx\<rceil> = min (nat \<lceil>idx\<rceil>) (length xs - 1)"
      using c0 3 unfolding clamp_index_def by linarith
    define lo hi where "lo = min (nat \<lfloor>idx\<rfloor>) (length xs - 1)"
      and "hi = min (nat \<lceil>idx\<rceil>) (length xs - 1)"
    from 3 have ne: "xs \<noteq> []" "length xs \<noteq> 1" "length xs \<noteq> 0" by auto
    have code: "calculatePercentile xs p =
        (if lo = hi then xs ! lo else xs ! lo * (1 - (idx - real lo)) + xs ! hi * (idx - real lo))"
      using ne unfolding calculatePercentile_def Let_def idx_def lo_def hi_def by simp
    have spec: "percentile_spec xs p = lerp (xs ! lo) (xs ! hi) (idx - real lo)"
      using ne unfolding percentile_spec_def Let_def idx_def [symmetric] lo hi lo_def hi_def by simp
    show ?thesis
      unfolding code spec lerp_def by (simp add: algebra_simps)
  qed
qed

lemma hd_sorted_Min: "sorted xs \<Longrightarrow> xs \<noteq> [] \<Longrightarrow> hd xs = Min (set xs)"
  by (cases xs) (auto intro!: Min_eqI [symmetric])

lemma last_sorted_Max: "sorted xs \<Longrightarrow> xs \<noteq> [] \<Longrightarrow> last xs = Max (set xs)"
  by (induction xs) (auto intro!: Max_eqI [symmetric] simp: max_def)

lemma sum_list_sort: "sum_list (sort xs) = sum_list (xs :: real list)"
proof -
  have "sum_mset (mset (sort xs)) = sum_mset (mset xs)"
    by simp
  then show ?thesis
    by (simp only: sum_mset_sum_list)
qed

lemma calculateStats_nonempty:
  assumes "samples \<noteq> []"
  shows "calculateStats samples =
    \<lparr>average = mean samples, min_fps = Min (set samples), max_fps = Max (set samples),
     percentile01 = percentile_spec (sort samples) (1 / 1000),
     percentile1 = percentile_spec (sort samples) (1 / 100)\<rparr>"
proof -
  have ne: "sort samples \<noteq> []"
    using assms by (metis length_sort length_0_conv)
  have "hd (sort samples) = Min (set samples)"
    using hd_sorted_Min [OF sorted_sort ne] by simp
  moreover have "last (sort samples) = Max (set samples)"
    using last_sorted_Max [OF sorted_sort ne] by simp
  moreover have "accumulate (sort samples) 0 / real (length (sort samples)) = mean samples"
    using assms by (simp add: accumulate_sum sum_list_sort mean_def)
  ultimately show ?thesis
    using assms by (simp add: calculateStats_def Let_def calculatePercentile_spec)
qed

text \<open>
  C4. The percentile that the code computes is the percentile of the specification, for
  every fraction \<open>p\<close> in \<open>[0, 1]\<close> and every list of samples: the interpolation between
  the elements at the floor and the ceiling of \<open>p * (n - 1)\<close>, clamped to \<open>[0, n - 1]\<close>,
  weighted by the fractional part; 0 for no sample and the single value for one sample.
  For a non-empty input the summary holds the mean, the minimum, the maximum and the
  percentiles for \<open>p = 0.001\<close> and \<open>p = 0.01\<close> of the sorted samples; for the empty input
  all five fields are 0, and for a single sample all five are that sample.
\<close>

theorem stats_match_reference:
  "(0 \<le> p \<and> p \<le> 1 \<longrightarrow>
      calculatePercentile sortedSamples p = percentile_spec sortedSamples p) \<and>
   percentile_spec [] p = 0 \<and> percentile_spec [x] p = x \<and>
   (samples \<noteq> [] \<longrightarrow> calculateStats samples =
      \<lparr>average = mean samples, min_fps = Min (set samples), max_fps = Max (set samples),
       percentile01 = percentile_spec (sort samples) (1 / 1000),
       percentile1 = percentile_spec (sort samples) (1 / 100)\<rparr>) \<and>
   calculateStats [] = \<lparr>average = 0, min_fps = 0, max_fps = 0, percentile01 = 0, percentile1 = 0\<rparr> \<and>
   calculateStats [x] = \<lparr>average = x, min_fps = x, max_fps = x, percentile01 = x, percentile1 = x\<rparr>"
proof -
  have 1: "0 \<le> p \<and> p \<le> 1 \<longrightarrow>
      calculatePercentile sortedSamples p = percentile_spec sortedSamples p"
    by (simp add: calculatePercentile_spec)
  have 2: "percentile_spec [] p = 0" and 3: "percentile_spec [x] p = x"
    by (simp_all add: percentile_spec_def)
  have 4: "samples \<noteq> [] \<longrightarrow> calculateStats samples =
      \<lparr>average = mean samples, min_fps = Min (set samples), max_fps = Max (set samples),
       percentile01 = percentile_spec (sort samples) (1 / 1000),
       percentile1 = percentile_spec (sort samples) (1 / 100)\<rparr>"
    by (simp add: calculateStats_nonempty)
  have 5: "calculateStats [] =
      \<lparr>average = 0, min_fps = 0, max_fps = 0, percentile01 = 0, percentile1 = 0\<rparr>"
    by (simp add: calculateStats_def)
  have 6: "calculateStats [x] =
      \<lparr>average = x, min_fps = x, max_fps = x, percentile01 = x, percentile1 = x\<rparr>"
    by (simp add: calculateStats_def calculatePercentile_def accumulate_def)
  from 1 2 3 4 5 6 show ?thesis by blast
qed

theorem stats_match_reference_witness:
  "(0 :: real) \<le> 1 / 2 \<and> (1 / 2 :: real) \<le> 1 \<and>
   calculatePercentile [10, 20, 30, 40] (1 / 2) = percentile_spec [10, 20, 30, 40] (1 / 2) \<and>
   calculatePercentile [10, 20, 30, 40] (1 / 2) = 25 \<and>
   [30, 10, 20 :: real] \<noteq> [] \<and>
   calculateStats [30, 10, 20] =
     \<lparr>average = 20, min_fps = 10, max_fps = 30, percentile01 = 10 + 1 / 50, percentile1 = 10 + 1 / 5\<rparr>"
proof -
  have p: "calculatePercentile [10, 20, 30, 40] (1 / 2) = 25"
    by (simp add: calculatePercentile_def)
  have s: "calculateStats [30, 10, 20] =
     \<lparr>average = 20, min_fps = 10, max_fps = 30, percentile01 = 10 + 1 / 50, percentile1 = 10 + 1 / 5\<rparr>"
    by (simp add: calculateStats_def calculatePercentile_def accumulate_def)
  show ?thesis
    using stats_match_reference [of "1 / 2" "[10, 20, 30, 40]" 0 "[30, 10, 20]"] p s
    by simp
qed

section \<open>Drop detector\<close>


lemma checkForDrop_threshold:
  "m_thresholdPercent d' = m_thresholdPercent d \<Longrightarrow> checkForDrop d' cur avg = checkForDrop d cur avg"
  by (simp add: checkForDrop_def)

lemma setThreshold_range:
  "5 \<le> getThreshold (setThreshold d x) \<and> getThreshold (setThreshold d x) \<le> 50"
  by (simp add: getThreshold_def setThreshold_def)








section \<open>The drop condition\<close>

lemma bit_length_eq:
  "2 ^ k \<le> n \<Longrightarrow> n < 2 ^ Suc k \<Longrightarrow> bit_length n = Suc k"
proof (induction k arbitrary: n)
  case 0
  then have "n = 1" by simp
  then show ?case
    by (simp add: bit_length.simps [of 1] bit_length.simps [of 0])
next
  case (Suc k)
  then have "2 ^ k \<le> n div 2" and "n div 2 < 2 ^ Suc k"
    by simp_all
  then have "bit_length (n div 2) = Suc k"
    by (rule Suc.IH)
  moreover have "(0 :: int) < 2 ^ Suc k"
    by simp
  then have "0 < n"
    using Suc.prems(1) by linarith
  ultimately show ?case
    by (simp add: bit_length.simps [of n])
qed

lemma round_half_even_bounds:
  "\<lfloor>w\<rfloor> \<le> round_half_even w \<and> round_half_even w \<le> \<lfloor>w\<rfloor> + 1"
  by (simp add: round_half_even_def Let_def)

text \<open>
  The rounding of a magnitude whose significand is \<open>x * 2\<^sup>j\<close>, between \<open>2\<^sup>5\<^sup>2\<close> and
  \<open>2\<^sup>5\<^sup>3\<close>: the significand is rounded to an integer.
\<close>

lemma round_magnitude_normal:
  assumes lo: "2 ^ 52 \<le> x * 2 ^ j" and hi: "x * 2 ^ j < 2 ^ 53" and j: "j \<le> 1074"
  shows "round_magnitude x = Finite (real_of_int (round_half_even (x * 2 ^ j)) / 2 ^ j)"
proof -
  define k where "k = 1074 - j"
  define w where "w = x * 2 ^ j"
  have p: "(2 :: real) ^ 1074 = 2 ^ j * 2 ^ k"
    using j by (simp add: k_def power_add [symmetric])
  have z: "x * 2 ^ 1074 = w * 2 ^ k"
    by (subst p) (simp add: w_def)
  have "2 ^ (52 + k) \<le> w * 2 ^ k" and "w * 2 ^ k < 2 ^ (53 + k)"
    using lo hi by (simp_all add: power_add w_def)
  then have "(2 :: int) ^ (52 + k) \<le> \<lfloor>w * 2 ^ k\<rfloor>" and "\<lfloor>w * 2 ^ k\<rfloor> < 2 ^ Suc (52 + k)"
    by (simp_all add: le_floor_iff floor_less_iff)
  then have "bit_length \<lfloor>w * 2 ^ k\<rfloor> = Suc (52 + k)"
    by (rule bit_length_eq)
  then have shift: "bit_length \<lfloor>x * 2 ^ 1074\<rfloor> - 53 = k"
    unfolding z by simp
  have scaled: "x * 2 ^ 1074 / 2 ^ k = w"
    unfolding z by simp
  have "round_half_even w \<le> \<lfloor>w\<rfloor> + 1"
    using round_half_even_bounds [of w] by simp
  moreover have "\<lfloor>w\<rfloor> < 2 ^ 53"
    using hi by (simp add: floor_less_iff w_def)
  ultimately have "round_half_even w \<le> 2 ^ 53"
    by linarith
  then have "real_of_int (round_half_even w) \<le> real_of_int (2 ^ 53)"
    by (simp only: of_int_le_iff)
  then have m: "real_of_int (round_half_even w) \<le> 2 ^ 53"
    by simp
  have "(2 :: real) ^ 53 * 1 \<le> 2 ^ 53 * 2 ^ j"
    by (intro mult_left_mono) simp_all
  with m have "real_of_int (round_half_even w) \<le> 2 ^ 53 * 2 ^ j"
    by linarith
  then have "real_of_int (round_half_even w) / 2 ^ j \<le> 2 ^ 53"
    by (simp add: divide_le_eq)
  moreover have "(2 :: real) ^ 53 < 2 ^ 1024"
    by (rule power_strict_increasing) simp_all
  ultimately have small: "\<not> real_of_int (round_half_even w) / 2 ^ j \<ge> 2 ^ 1024"
    by linarith
  have unscale: "real_of_int (round_half_even w) * 2 ^ k / 2 ^ 1074
      = real_of_int (round_half_even w) / 2 ^ j"
    by (subst p) simp
  have "round_magnitude x =
      (if real_of_int (round_half_even w) / 2 ^ j \<ge> 2 ^ 1024 then PosInf
       else Finite (real_of_int (round_half_even w) / 2 ^ j))"
    unfolding round_magnitude_def Let_def shift scaled unscale by (rule refl)
  then show ?thesis
    using small by (simp only: if_False w_def)
qed







lemma dsub_100_71: "dsub (Finite 100) (Finite 71) = Finite 29"
  using round_magnitude_normal [of 29 48]
  by (simp add: dsub_def is_inf_def fl_def with_sign_def round_half_even_def)

lemma ddiv_29_100: "ddiv (Finite 29) (Finite 100) = Finite (5224175567749775 / 2 ^ 54)"
  using round_magnitude_normal [of "29 / 100" 54]
  by (simp add: ddiv_def is_inf_def is_zero_def with_sign_def round_half_even_def)

lemma dmul_29: "dmul (Finite (5224175567749775 / 2 ^ 54)) (Finite 100) = Finite (8162774324609023 / 2 ^ 48)"
  using round_magnitude_normal [of "5224175567749775 / 2 ^ 54 * 100" 48]
  by (simp add: dmul_def is_inf_def is_zero_def with_sign_def round_half_even_def)



lemma dropPercent_71:
  "dmul (ddiv (dsub (Finite 100) (Finite 71)) (Finite 100)) (Finite 100)
     = Finite (8162774324609023 / 2 ^ 48)"
  by (simp only: dsub_100_71 ddiv_29_100 dmul_29)

lemma checkForDrop_binary64_100:
  "checkForDrop_binary64 thr cur (Finite 100)
     = dge (dmul (ddiv (dsub (Finite 100) cur) (Finite 100)) (Finite 100)) thr"
  by (simp add: checkForDrop_binary64_def dless_def)

lemma NaN_operand [simp]:
  "dsub NaN y = NaN" "dsub x NaN = NaN" "ddiv NaN y = NaN" "dmul NaN y = NaN"
  "\<not> dge NaN y" "\<not> dge x NaN" "\<not> dless NaN y"
  by (simp_all add: dsub_def ddiv_def dmul_def dge_def dless_def)


text \<open>
  Rounding decides at the threshold: 71 is 29 percent below 100 and exact arithmetic
  reports a drop at the threshold 29, binary64 arithmetic does not.
\<close>

lemma checkForDrop_rounding:
  "checkForDrop (DropDetector_new t 29) 71 100 \<and>
   \<not> checkForDrop_binary64 (Finite 29) (Finite 71) (Finite 100)"
  by (simp add: checkForDrop_def DropDetector_new_def checkForDrop_binary64_100 dropPercent_71
      dge_def dless_def)



section \<open>Debouncing\<close>




section \<open>The threshold range\<close>

text \<open>
  C7. \<^verbatim>\<open>setThreshold\<close> clamps its argument into \<open>[5, 50]\<close>, but the constructor stores
  its argument as it is: a detector constructed with 3 or with 99 reports that value as its
  threshold.
\<close>

theorem threshold_unclamped_at_construction:
  "getThreshold (DropDetector_new 0 3) = 3 \<and>
   getThreshold (DropDetector_new 0 99) = 99 \<and>
   getThreshold (setThreshold (DropDetector_new 0 15) 3) = 5 \<and>
   getThreshold (setThreshold (DropDetector_new 0 15) 99) = 50"
  by (simp add: getThreshold_def DropDetector_new_def setThreshold_def)

section \<open>The magnitude of a recorded event\<close>




end
